theory Spec2Isabelle
  imports Main "HOL-Library.Word"
begin

section \<open>Synchronization primitives of kern/thread/synch.c\<close>

text \<open>
  A shallow embedding of \<^verbatim>\<open>os161/kern/thread/synch.c\<close>: the counting semaphore, the
  lock and the condition variable. Every C function is a HOL function on an explicit
  kernel state; a failed \<^verbatim>\<open>assert\<close> is the value \<open>Panic\<close>, a caller that is left
  asleep is the value \<open>Blocked\<close>.
\<close>

subsection \<open>Data model\<close>

text \<open>Pointers are addresses; \<^verbatim>\<open>NULL\<close> is address 0.\<close>

type_synonym ptr = nat

abbreviation NULL :: ptr where
  "NULL \<equiv> 0"

text \<open>
  The structs are declared in \<^verbatim>\<open>synch.h\<close>; their fields are the ones synch.c reads
  and writes. \<^verbatim>\<open>count\<close> is a C \<^verbatim>\<open>int\<close> (it is assigned from the \<^verbatim>\<open>int\<close> parameter
  of \<^verbatim>\<open>sem_create\<close>): a 32-bit word read as two's complement, so that \<^verbatim>\<open>count++\<close>
  at \<^verbatim>\<open>INT_MAX\<close> wraps to \<^verbatim>\<open>INT_MIN\<close>. The field \<^verbatim>\<open>name\<close> of the three structs is
  \<open>sem_name\<close>, \<open>lock_name\<close> and \<open>cv_name\<close> here, a pointer to the stored string.
\<close>

record semaphore =
  sem_name :: ptr
  count :: "32 word"

record lock =
  lock_name :: ptr
  flag :: "32 word"
  currentThread :: ptr

record cv =
  cv_name :: ptr

text \<open>
  The kernel state synch.c works on: the globals \<^verbatim>\<open>curspl\<close>, \<^verbatim>\<open>in_interrupt\<close> and
  \<^verbatim>\<open>curthread\<close> it reads, the wait queue of the thread system (each sleeping thread
  with the address it sleeps on, oldest first), the allocator's free cells, and the heap,
  one typed map per kind of object.
\<close>

record kstate =
  curspl :: int
  in_interrupt :: int
  curthread :: ptr
  sleepers :: "(ptr \<times> ptr) list"
  free_cells :: "ptr list"
  strs :: "ptr \<rightharpoonup> string"
  sems :: "ptr \<rightharpoonup> semaphore"
  locks :: "ptr \<rightharpoonup> lock"
  cvs :: "ptr \<rightharpoonup> cv"

datatype failure =
    Assert_failed string    \<comment> \<open>a failed \<^verbatim>\<open>assert\<close>, with the asserted expression\<close>
  | Bad_pointer             \<comment> \<open>a dereference of an address that holds no such object\<close>

datatype 'a result =
    Done 'a                 \<comment> \<open>the call returned\<close>
  | Panic failure           \<comment> \<open>the kernel halted\<close>
  | Blocked kstate          \<comment> \<open>the caller sleeps in this state and is not woken\<close>

text \<open>
  What the rest of the kernel does while the calling thread sleeps: one state change per
  sleep of the caller, from the moment it is descheduled to the moment it would run again.
\<close>

type_synonym env = "(kstate \<Rightarrow> kstate) list"

subsection \<open>External collaborators\<close>

text \<open>
  Modelled from the spec: the maximum interrupt priority level (a macro of
  \<^verbatim>\<open>machine/spl.h\<close>, absent), at which no maskable interrupt is delivered. The
  spec fixes no number for it; 15 stands for it here, and the properties below use it
  only as a fixed level above 0.
\<close>

definition SPL_HIGH :: int where
  "SPL_HIGH = 15"

text \<open>
  Modelled from the spec: \<^verbatim>\<open>splhigh\<close> (\<^verbatim>\<open>machine/spl.h\<close>, absent) is
  \<open>raise_to_max() -> previous_level\<close>: it sets the level to the maximum and returns the
  prior level.
\<close>

definition splhigh :: "kstate \<Rightarrow> int \<times> kstate" where
  "splhigh s = (curspl s, s\<lparr>curspl := SPL_HIGH\<rparr>)"

text \<open>
  Modelled from the spec: \<^verbatim>\<open>splx\<close> (\<^verbatim>\<open>machine/spl.h\<close>, absent) is
  \<open>restore(previous_level)\<close>: it sets the interrupt level back.
\<close>

definition splx :: "int \<Rightarrow> kstate \<Rightarrow> kstate" where
  "splx spl s = s\<lparr>curspl := spl\<rparr>"

text \<open>
  Two readings of the wait queue: the threads asleep on a wait channel, oldest first, and
  whether a thread is asleep on any channel.
\<close>

definition waiting :: "ptr \<Rightarrow> kstate \<Rightarrow> ptr list" where
  "waiting chan s = map fst (filter (\<lambda>tc. snd tc = chan) (sleepers s))"

definition asleep :: "ptr \<Rightarrow> kstate \<Rightarrow> bool" where
  "asleep t s = (t \<in> set (map fst (sleepers s)))"

text \<open>
  Modelled from the spec: \<^verbatim>\<open>thread_hassleepers\<close> (\<^verbatim>\<open>thread.c\<close>, absent) is
  \<open>has_waiters(channel_identity) -> bool\<close>.
\<close>

definition thread_hassleepers :: "ptr \<Rightarrow> kstate \<Rightarrow> int" where
  "thread_hassleepers chan s = (if waiting chan s = [] then 0 else 1)"

text \<open>
  Modelled from the spec: \<^verbatim>\<open>thread_wakeup\<close> (\<^verbatim>\<open>thread.c\<close>, absent) is
  \<open>wake_all(channel_identity)\<close>: every thread queued on the channel becomes runnable.
  synch.c says the same where it calls it in \<^verbatim>\<open>cv_broadcast\<close>: "Wake up all the threads
  on the cv".
\<close>

definition thread_wakeup :: "ptr \<Rightarrow> kstate \<Rightarrow> kstate" where
  "thread_wakeup chan s = s\<lparr>sleepers := filter (\<lambda>tc. snd tc \<noteq> chan) (sleepers s)\<rparr>"

text \<open>
  Modelled from the spec: the queue operation of \<open>wake_one\<close>, which takes the first
  thread queued on the channel, if any, off the wait queue.
\<close>

fun wake_first :: "ptr \<Rightarrow> (ptr \<times> ptr) list \<Rightarrow> (ptr \<times> ptr) list" where
  "wake_first chan [] = []"
| "wake_first chan (tc # q) = (if snd tc = chan then q else tc # wake_first chan q)"

text \<open>
  Modelled from the spec: \<^verbatim>\<open>thread_single_wakeup\<close> (\<^verbatim>\<open>thread.c\<close>, absent) is
  \<open>wake_one(channel_identity)\<close>: the first queued thread on the channel, if any, becomes
  runnable. synch.c says the same where it calls it in \<^verbatim>\<open>cv_signal\<close>: "Wake up one of
  the threads on the cv".
\<close>

definition thread_single_wakeup :: "ptr \<Rightarrow> kstate \<Rightarrow> kstate" where
  "thread_single_wakeup chan s = s\<lparr>sleepers := wake_first chan (sleepers s)\<rparr>"

text \<open>
  Modelled from the spec: \<^verbatim>\<open>thread_sleep\<close> (\<^verbatim>\<open>thread.c\<close>, absent) is
  \<open>sleep_on(channel_identity)\<close>: it deschedules the calling thread and blocks it on the
  channel, and returns only after the thread has been woken. The caller joins the end of
  the wait queue; the next state change of the environment runs; if it has taken the caller
  off the wait queue the call returns (\<open>Inr\<close>) to the caller, which is again the
  current thread, in the context it slept in; otherwise the caller stays asleep (\<open>Inl\<close>).
\<close>

definition thread_sleep :: "ptr \<Rightarrow> env \<Rightarrow> kstate \<Rightarrow> kstate + env \<times> kstate" where
  "thread_sleep chan env s =
     (let s1 = s\<lparr>sleepers := sleepers s @ [(curthread s, chan)]\<rparr> in
      case env of
        [] \<Rightarrow> Inl s1
      | e # env' \<Rightarrow>
          (let s2 = e s1 in
           if asleep (curthread s) s2 then Inl s2
           else Inr (env', s2\<lparr>curspl := curspl s, in_interrupt := in_interrupt s,
                              curthread := curthread s\<rparr>)))"

text \<open>
  Modelled from the spec: \<^verbatim>\<open>kmalloc\<close> (\<^verbatim>\<open>lib.h\<close>, absent), the memory allocator.
  It hands out the next free cell, or \<^verbatim>\<open>NULL\<close> when none is left (resource exhaustion
  is an absence result).
\<close>

definition kmalloc :: "kstate \<Rightarrow> ptr \<times> kstate" where
  "kmalloc s =
     (case free_cells s of
        [] \<Rightarrow> (NULL, s)
      | a # as \<Rightarrow> (a, s\<lparr>free_cells := as\<rparr>))"

text \<open>
  Modelled from the spec: \<^verbatim>\<open>kstrdup\<close> (\<^verbatim>\<open>lib.h\<close>, absent), the name storage for
  diagnostics: a freshly allocated copy of the string, or \<^verbatim>\<open>NULL\<close>.
\<close>

definition kstrdup :: "string \<Rightarrow> kstate \<Rightarrow> ptr \<times> kstate" where
  "kstrdup str s =
     (let (p, s1) = kmalloc s in
      if p = NULL then (NULL, s1) else (p, s1\<lparr>strs := (strs s1)(p \<mapsto> str)\<rparr>))"

text \<open>
  Modelled from the spec: \<^verbatim>\<open>kfree\<close> (\<^verbatim>\<open>lib.h\<close>, absent) gives the cell back to
  the allocator and ends the object that lived there; \<^verbatim>\<open>kfree(NULL)\<close> does nothing.
\<close>

definition kfree :: "ptr \<Rightarrow> kstate \<Rightarrow> kstate" where
  "kfree p s =
     (if p = NULL then s
      else s\<lparr>free_cells := p # free_cells s,
             strs := (strs s)(p := None), sems := (sems s)(p := None),
             locks := (locks s)(p := None), cvs := (cvs s)(p := None)\<rparr>)"

subsection \<open>Semaphore\<close>

definition sem_create :: "string \<Rightarrow> 32 word \<Rightarrow> kstate \<Rightarrow> (ptr \<times> kstate) result" where
  "sem_create namearg initial_count s =
     (if \<not> 0 \<le> sint initial_count then Panic (Assert_failed ''initial_count >= 0'')
      else
        let (sem, s1) = kmalloc s in
        if sem = NULL then Done (NULL, s1)
        else
          let (nm, s2) = kstrdup namearg s1 in
          if nm = NULL then Done (NULL, kfree sem s2)
          else Done (sem, s2\<lparr>sems := (sems s2)(sem \<mapsto>
                                \<lparr>sem_name = nm, count = initial_count\<rparr>)\<rparr>))"

definition sem_destroy :: "ptr \<Rightarrow> kstate \<Rightarrow> kstate result" where
  "sem_destroy sem s =
     (if sem = NULL then Panic (Assert_failed ''sem != NULL'')
      else
        let (spl, s1) = splhigh s in
        if thread_hassleepers sem s1 \<noteq> 0
        then Panic (Assert_failed ''thread_hassleepers(sem)==0'')
        else
          let s2 = splx spl s1 in
          case sems s2 sem of
            None \<Rightarrow> Panic Bad_pointer
          | Some sm \<Rightarrow> Done (kfree sem (kfree (sem_name sm) s2)))"

text \<open>
  The loop \<^verbatim>\<open>while (sem->count==0) thread_sleep(sem);\<close> of \<^verbatim>\<open>P\<close>. It returns the
  state in which the test failed, with what is left of the environment.
\<close>

function P_while :: "env \<Rightarrow> ptr \<Rightarrow> kstate \<Rightarrow> (env \<times> kstate) result" where
  "P_while env sem s =
     (case sems s sem of
        None \<Rightarrow> Panic Bad_pointer
      | Some sm \<Rightarrow>
          if count sm = 0 then
            (case thread_sleep sem env s of
               Inl s' \<Rightarrow> Blocked s'
             | Inr (env', s') \<Rightarrow> P_while env' sem s')
          else Done (env, s))"
  by pat_completeness auto
termination
  by (relation "measure (\<lambda>(env, sem, s). length env)")
     (auto simp: thread_sleep_def Let_def split: list.splits if_splits)

text \<open>
  \<^verbatim>\<open>P\<close> from its loop on: the loop, the assertion, the decrement and \<^verbatim>\<open>splx(spl)\<close>.
  A thread that \<^verbatim>\<open>thread_sleep\<close> returns to inside \<^verbatim>\<open>P\<close> continues here, with the
  \<^verbatim>\<open>spl\<close> it saved on entry.
\<close>

definition P_body :: "env \<Rightarrow> int \<Rightarrow> ptr \<Rightarrow> kstate \<Rightarrow> kstate result" where
  "P_body env spl sem s =
     (case P_while env sem s of
        Panic f \<Rightarrow> Panic f
      | Blocked s' \<Rightarrow> Blocked s'
      | Done (env', s1) \<Rightarrow>
          (case sems s1 sem of
             None \<Rightarrow> Panic Bad_pointer
           | Some sm \<Rightarrow>
               if \<not> 0 < sint (count sm) then Panic (Assert_failed ''sem->count>0'')
               else Done (splx spl
                      (s1\<lparr>sems := (sems s1)(sem \<mapsto> sm\<lparr>count := count sm - 1\<rparr>)\<rparr>))))"

definition P :: "env \<Rightarrow> ptr \<Rightarrow> kstate \<Rightarrow> kstate result" where
  "P env sem s =
     (if sem = NULL then Panic (Assert_failed ''sem != NULL'')
      else if in_interrupt s \<noteq> 0 then Panic (Assert_failed ''in_interrupt==0'')
      else
        let (spl, s1) = splhigh s in
        P_body env spl sem s1)"

definition V :: "ptr \<Rightarrow> kstate \<Rightarrow> kstate result" where
  "V sem s =
     (if sem = NULL then Panic (Assert_failed ''sem != NULL'')
      else
        let (spl, s1) = splhigh s in
        case sems s1 sem of
          None \<Rightarrow> Panic Bad_pointer
        | Some sm \<Rightarrow>
            let s2 = s1\<lparr>sems := (sems s1)(sem \<mapsto> sm\<lparr>count := count sm + 1\<rparr>)\<rparr> in
            if \<not> 0 < sint (count sm + 1) then Panic (Assert_failed ''sem->count>0'')
            else Done (splx spl (thread_wakeup sem s2)))"

subsection \<open>Lock\<close>

definition lock_create :: "string \<Rightarrow> kstate \<Rightarrow> (ptr \<times> kstate) result" where
  "lock_create name s =
     (let (lock, s1) = kmalloc s in
      if lock = NULL then Done (NULL, s1)
      else
        let (nm, s2) = kstrdup name s1 in
        if nm = NULL then Done (NULL, kfree lock s2)
        else Done (lock, s2\<lparr>locks := (locks s2)(lock \<mapsto>
                              \<lparr>lock_name = nm, flag = 0, currentThread = NULL\<rparr>)\<rparr>))"

definition lock_destroy :: "ptr \<Rightarrow> kstate \<Rightarrow> kstate result" where
  "lock_destroy lock s =
     (if lock = NULL then Panic (Assert_failed ''lock != NULL'')
      else
        case locks s lock of
          None \<Rightarrow> Panic Bad_pointer
        | Some l \<Rightarrow> Done (kfree lock (kfree (lock_name l) s)))"

definition lock_do_i_hold :: "ptr \<Rightarrow> kstate \<Rightarrow> int result" where
  "lock_do_i_hold lock s =
     (if lock = NULL then Panic (Assert_failed ''lock != NULL'')
      else
        case locks s lock of
          None \<Rightarrow> Panic Bad_pointer
        | Some l \<Rightarrow> if currentThread l = curthread s then Done 1 else Done 0)"

text \<open>The loop \<^verbatim>\<open>while(lock->flag != 0) thread_sleep(lock);\<close> of \<^verbatim>\<open>lock_acquire\<close>.\<close>

function lock_while :: "env \<Rightarrow> ptr \<Rightarrow> kstate \<Rightarrow> (env \<times> kstate) result" where
  "lock_while env lock s =
     (case locks s lock of
        None \<Rightarrow> Panic Bad_pointer
      | Some l \<Rightarrow>
          if flag l \<noteq> 0 then
            (case thread_sleep lock env s of
               Inl s' \<Rightarrow> Blocked s'
             | Inr (env', s') \<Rightarrow> lock_while env' lock s')
          else Done (env, s))"
  by pat_completeness auto
termination
  by (relation "measure (\<lambda>(env, lock, s). length env)")
     (auto simp: thread_sleep_def Let_def split: list.splits if_splits)

text \<open>
  \<^verbatim>\<open>lock_acquire\<close> from its loop on: the loop, the two assignments and \<^verbatim>\<open>splx(spl)\<close>.
  A thread that \<^verbatim>\<open>thread_sleep\<close> returns to inside \<^verbatim>\<open>lock_acquire\<close> continues here.
\<close>

definition lock_acquire_body :: "env \<Rightarrow> int \<Rightarrow> ptr \<Rightarrow> kstate \<Rightarrow> kstate result" where
  "lock_acquire_body env spl lock s =
     (case lock_while env lock s of
        Panic f \<Rightarrow> Panic f
      | Blocked s' \<Rightarrow> Blocked s'
      | Done (env', s1) \<Rightarrow>
          (case locks s1 lock of
             None \<Rightarrow> Panic Bad_pointer
           | Some l \<Rightarrow>
               Done (splx spl
                 (s1\<lparr>locks := (locks s1)(lock \<mapsto>
                        l\<lparr>flag := 1, currentThread := curthread s1\<rparr>)\<rparr>))))"

definition lock_acquire :: "env \<Rightarrow> ptr \<Rightarrow> kstate \<Rightarrow> kstate result" where
  "lock_acquire env lock s =
     (let (spl, s1) = splhigh s in
      if lock = NULL then Panic (Assert_failed ''lock != NULL'')
      else if in_interrupt s1 \<noteq> 0 then Panic (Assert_failed ''in_interrupt == 0'')
      else lock_acquire_body env spl lock s1)"

text \<open>
  \<^verbatim>\<open>lock_release\<close>. The \<^verbatim>\<open>return\<close> of the branch \<^verbatim>\<open>lock_do_i_hold(lock) == 0\<close>
  leaves the function before \<^verbatim>\<open>splx(spl)\<close>: the state returned is the one
  \<^verbatim>\<open>splhigh\<close> produced.
\<close>

definition lock_release :: "ptr \<Rightarrow> kstate \<Rightarrow> kstate result" where
  "lock_release lock s =
     (let (spl, s1) = splhigh s in
      if lock = NULL then Panic (Assert_failed ''lock != NULL'')
      else if in_interrupt s1 \<noteq> 0 then Panic (Assert_failed ''in_interrupt == 0'')
      else
        case lock_do_i_hold lock s1 of
          Panic f \<Rightarrow> Panic f
        | Blocked s' \<Rightarrow> Blocked s'
        | Done held \<Rightarrow>
            if held = 0 then Done s1
            else
              (case locks s1 lock of
                 None \<Rightarrow> Panic Bad_pointer
               | Some l \<Rightarrow>
                   let s2 = s1\<lparr>locks := (locks s1)(lock \<mapsto>
                                  l\<lparr>flag := 0, currentThread := NULL\<rparr>)\<rparr> in
                   Done (splx spl (thread_wakeup lock s2))))"

subsection \<open>Condition variable\<close>

definition cv_create :: "string \<Rightarrow> kstate \<Rightarrow> (ptr \<times> kstate) result" where
  "cv_create name s =
     (let (cv, s1) = kmalloc s in
      if cv = NULL then Done (NULL, s1)
      else
        let (nm, s2) = kstrdup name s1 in
        if nm = NULL then Done (NULL, kfree cv s2)
        else Done (cv, s2\<lparr>cvs := (cvs s2)(cv \<mapsto> \<lparr>cv_name = nm\<rparr>)\<rparr>))"

definition cv_destroy :: "ptr \<Rightarrow> kstate \<Rightarrow> kstate result" where
  "cv_destroy cv s =
     (if cv = NULL then Panic (Assert_failed ''cv != NULL'')
      else
        case cvs s cv of
          None \<Rightarrow> Panic Bad_pointer
        | Some c \<Rightarrow> Done (kfree cv (kfree (cv_name c) s)))"



definition cv_signal :: "ptr \<Rightarrow> ptr \<Rightarrow> kstate \<Rightarrow> kstate result" where
  "cv_signal cv lock s =
     (let (spl, s1) = splhigh s in
      if cv = NULL then Panic (Assert_failed ''cv != NULL'')
      else if lock = NULL then Panic (Assert_failed ''lock != NULL'')
      else if in_interrupt s1 \<noteq> 0 then Panic (Assert_failed ''in_interrupt == 0'')
      else Done (splx spl (thread_single_wakeup cv s1)))"

definition cv_broadcast :: "ptr \<Rightarrow> ptr \<Rightarrow> kstate \<Rightarrow> kstate result" where
  "cv_broadcast cv lock s =
     (let (spl, s1) = splhigh s in
      if cv = NULL then Panic (Assert_failed ''cv != NULL'')
      else if lock = NULL then Panic (Assert_failed ''lock != NULL'')
      else if in_interrupt s1 \<noteq> 0 then Panic (Assert_failed ''in_interrupt == 0'')
      else Done (splx spl (thread_wakeup cv s1)))"

subsection \<open>Statements, traces and interrupts\<close>

text \<open>
  To speak of the order of the statements inside a function, and of what can run between
  two of them, \<^verbatim>\<open>V\<close>, \<^verbatim>\<open>lock_release\<close> and \<^verbatim>\<open>cv_wait\<close> (up to its sleep) are
  also given statement by statement. A statement fails, or yields the next state and says
  whether the function returns there.
\<close>

type_synonym stmt = "kstate \<Rightarrow> failure + bool \<times> kstate"

text \<open>
  Modelled from the spec: the delivery of interrupts (the trap code and
  \<^verbatim>\<open>machine/spl.h\<close>, absent). The interrupt-level guard guarantees that a section at
  the maximum level runs without interleaving from interrupt handlers: a handler, and
  with it any thread the handler switches to, runs between two statements of the current
  thread only while the interrupt level is below the maximum. \<open>irq\<close> is what it does
  to the state.
\<close>

definition preempt :: "(kstate \<Rightarrow> kstate) \<Rightarrow> kstate \<Rightarrow> kstate" where
  "preempt irq s = (if curspl s < SPL_HIGH then irq s else s)"

text \<open>No interrupt arrives.\<close>

definition no_irq :: "kstate \<Rightarrow> kstate" where
  "no_irq s = s"

text \<open>
  A list of statements run in order, an interrupt being taken before each statement
  where the level allows. The result is the states reached, one after each statement
  executed, and the failure that ended the run, if any.
\<close>

fun run_stmts :: "(kstate \<Rightarrow> kstate) \<Rightarrow> stmt list \<Rightarrow> kstate \<Rightarrow> kstate list \<times> failure option" where
  "run_stmts irq [] s = ([], None)"
| "run_stmts irq (c # cs) s =
     (case c (preempt irq s) of
        Inl f \<Rightarrow> ([], Some f)
      | Inr (ret, s') \<Rightarrow>
          if ret then ([s'], None)
          else (case run_stmts irq cs s' of (tr, r) \<Rightarrow> (s' # tr, r)))"


definition stmt_do :: "(kstate \<Rightarrow> kstate) \<Rightarrow> stmt" where
  "stmt_do f s = Inr (False, f s)"

text \<open>
  The statements of \<^verbatim>\<open>V\<close> after \<^verbatim>\<open>spl = splhigh()\<close>: \<^verbatim>\<open>sem->count++\<close>,
  \<^verbatim>\<open>assert(sem->count>0)\<close>, \<^verbatim>\<open>thread_wakeup(sem)\<close>, \<^verbatim>\<open>splx(spl)\<close>.
\<close>

definition sem_count_incr :: "ptr \<Rightarrow> stmt" where
  "sem_count_incr sem s =
     (case sems s sem of
        None \<Rightarrow> Inl Bad_pointer
      | Some sm \<Rightarrow> Inr (False, s\<lparr>sems := (sems s)(sem \<mapsto> sm\<lparr>count := count sm + 1\<rparr>)\<rparr>))"

definition sem_count_positive :: "ptr \<Rightarrow> stmt" where
  "sem_count_positive sem s =
     (case sems s sem of
        None \<Rightarrow> Inl Bad_pointer
      | Some sm \<Rightarrow>
          if 0 < sint (count sm) then Inr (False, s) else Inl (Assert_failed ''sem->count>0''))"

definition V_stmts :: "ptr \<Rightarrow> int \<Rightarrow> stmt list" where
  "V_stmts sem spl =
     [sem_count_incr sem,
      sem_count_positive sem,
      stmt_do (thread_wakeup sem),
      stmt_do (splx spl)]"

text \<open>
  \<^verbatim>\<open>V\<close> statement by statement: \<^verbatim>\<open>assert(sem != NULL)\<close>, \<^verbatim>\<open>spl = splhigh()\<close> and
  the statements above.
\<close>

definition V_trace :: "(kstate \<Rightarrow> kstate) \<Rightarrow> ptr \<Rightarrow> kstate \<Rightarrow> kstate list \<times> failure option" where
  "V_trace irq sem s =
     (if sem = NULL then ([], Some (Assert_failed ''sem != NULL''))
      else
        let (spl, s1) = splhigh (preempt irq s) in
        case run_stmts irq (V_stmts sem spl) s1 of (tr, r) \<Rightarrow> (s1 # tr, r))"








subsection \<open>Schedules\<close>

text \<open>
  A sequence of semaphore operations, each run by a named thread to its next return or
  sleep: a call of \<^verbatim>\<open>V\<close>, a call of \<^verbatim>\<open>P\<close>, or the continuation of a \<^verbatim>\<open>P\<close> whose
  \<^verbatim>\<open>thread_sleep\<close> has returned (with the \<^verbatim>\<open>spl\<close> that call saved), which re-tests the
  loop condition at interrupt level \<open>SPL_HIGH\<close>.
\<close>

datatype sem_op = Op_V | Op_P | Op_P_woken int

fun sem_step :: "ptr \<Rightarrow> ptr \<times> sem_op \<Rightarrow> kstate \<Rightarrow> kstate result" where
  "sem_step sem (t, Op_V) s = V sem (s\<lparr>curthread := t\<rparr>)"
| "sem_step sem (t, Op_P) s = P [] sem (s\<lparr>curthread := t\<rparr>)"
| "sem_step sem (t, Op_P_woken spl) s =
     P_body [] spl sem (s\<lparr>curthread := t, curspl := SPL_HIGH\<rparr>)"

text \<open>
  Running a schedule counts the calls of \<^verbatim>\<open>V\<close> and of \<^verbatim>\<open>P\<close> that have completed.
  A thread that is asleep does not run, and a panic ends the run: both are \<open>None\<close>.
\<close>

fun sem_run :: "ptr \<Rightarrow> (ptr \<times> sem_op) list \<Rightarrow> kstate \<times> nat \<times> nat \<Rightarrow>
    (kstate \<times> nat \<times> nat) option" where
  "sem_run sem [] acc = Some acc"
| "sem_run sem ((t, op) # ops) (s, nv, np) =
     (if asleep t s then None
      else
        case sem_step sem (t, op) s of
          Panic f \<Rightarrow> None
        | Blocked s' \<Rightarrow> sem_run sem ops (s', nv, np)
        | Done s' \<Rightarrow>
            (case op of
               Op_V \<Rightarrow> sem_run sem ops (s', nv + 1, np)
             | _ \<Rightarrow> sem_run sem ops (s', nv, np + 1)))"

text \<open>
  The count of semaphore \<open>sem\<close> is non-negative and equals the initial count plus the
  completed increments minus the completed decrements.
\<close>

definition sem_balance :: "ptr \<Rightarrow> 32 word \<Rightarrow> kstate \<times> nat \<times> nat \<Rightarrow> bool" where
  "sem_balance sem c0 acc =
     (case acc of (s, nv, np) \<Rightarrow>
        (case sems s sem of
           None \<Rightarrow> False
         | Some sm \<Rightarrow> 0 \<le> sint (count sm) \<and>
                      sint (count sm) = sint c0 + int nv - int np))"

text \<open>
  What another thread \<open>t\<close> does while the caller sleeps: it calls \<^verbatim>\<open>V\<close>; it calls
  \<^verbatim>\<open>lock_release\<close>; it acquires the lock, signals the condition variable and releases
  the lock.
\<close>

definition other_thread_V :: "ptr \<Rightarrow> ptr \<Rightarrow> kstate \<Rightarrow> kstate" where
  "other_thread_V t sem s = (case V sem (s\<lparr>curthread := t\<rparr>) of Done s' \<Rightarrow> s' | _ \<Rightarrow> s)"

definition other_thread_release :: "ptr \<Rightarrow> ptr \<Rightarrow> kstate \<Rightarrow> kstate" where
  "other_thread_release t lock s =
     (case lock_release lock (s\<lparr>curthread := t\<rparr>) of Done s' \<Rightarrow> s' | _ \<Rightarrow> s)"



subsection \<open>The lock invariant\<close>

text \<open>The held flag of a lock is nonzero exactly when its owner pointer is not \<^verbatim>\<open>NULL\<close>.\<close>

definition lock_inv :: "lock \<Rightarrow> bool" where
  "lock_inv l = ((flag l \<noteq> 0) = (currentThread l \<noteq> NULL))"

definition locks_inv :: "kstate \<Rightarrow> bool" where
  "locks_inv s = (\<forall>p l. locks s p = Some l \<longrightarrow> lock_inv l)"

text \<open>The threads that run while the caller sleeps keep the lock invariant.\<close>

definition env_keeps_locks_inv :: "env \<Rightarrow> bool" where
  "env_keeps_locks_inv env = (\<forall>e \<in> set env. \<forall>t. locks_inv t \<longrightarrow> locks_inv (e t))"

subsection \<open>Example states\<close>

text \<open>A state with nothing allocated: thread 1 runs, interrupts are enabled.\<close>

definition boot_state :: kstate where
  "boot_state =
     \<lparr>curspl = 0, in_interrupt = 0, curthread = 1, sleepers = [],
      free_cells = [10, 11, 12, 13], strs = Map.empty, sems = Map.empty,
      locks = Map.empty, cvs = Map.empty\<rparr>"

text \<open>A semaphore at address 10 with count 1 and nobody asleep.\<close>

definition sem_one :: kstate where
  "sem_one =
     boot_state\<lparr>free_cells := [12, 13], strs := [11 \<mapsto> ''sem''],
                 sems := [10 \<mapsto> \<lparr>sem_name = 11, count = 1\<rparr>]\<rparr>"

text \<open>A semaphore at address 10 with count 0; threads 2 and 3 sleep on it.\<close>

definition sem_two_waiters :: kstate where
  "sem_two_waiters =
     boot_state\<lparr>free_cells := [12, 13], strs := [11 \<mapsto> ''sem''],
                 sems := [10 \<mapsto> \<lparr>sem_name = 11, count = 0\<rparr>],
                 sleepers := [(2, 10), (3, 10)]\<rparr>"

text \<open>
  Thread 1 decrements, thread 2 finds the count 0 and sleeps, thread 3 increments, and
  thread 2 continues its \<^verbatim>\<open>P\<close>.
\<close>

definition sem_schedule :: "(ptr \<times> sem_op) list" where
  "sem_schedule = [(1, Op_P), (2, Op_P), (3, Op_V), (2, Op_P_woken 0)]"

text \<open>
  Two semaphores (10 and 14, both at count 0), three locks (20 held by thread 2, 22 held by
  the running thread 1, 24 free) and a condition variable (30); threads 3 to 7 sleep on
  them.
\<close>

definition busy_state :: kstate where
  "busy_state =
     boot_state\<lparr>free_cells := [12, 13],
                 strs := [11 \<mapsto> ''sem'', 15 \<mapsto> ''sem2'', 21 \<mapsto> ''lock'',
                          23 \<mapsto> ''lock2'', 25 \<mapsto> ''lock3'', 31 \<mapsto> ''cv''],
                 sems := [10 \<mapsto> \<lparr>sem_name = 11, count = 0\<rparr>,
                          14 \<mapsto> \<lparr>sem_name = 15, count = 0\<rparr>],
                 locks := [20 \<mapsto> \<lparr>lock_name = 21, flag = 1, currentThread = 2\<rparr>,
                           22 \<mapsto> \<lparr>lock_name = 23, flag = 1, currentThread = 1\<rparr>,
                           24 \<mapsto> \<lparr>lock_name = 25, flag = 0, currentThread = NULL\<rparr>],
                 cvs := [30 \<mapsto> \<lparr>cv_name = 31\<rparr>],
                 sleepers := [(3, 20), (4, 30), (5, 14), (6, 30), (7, 22)]\<rparr>"


declare P_while.simps [simp del]

declare lock_while.simps [simp del]

section \<open>Properties\<close>

subsection \<open>Auxiliary facts: machine integers and the wait queue\<close>

lemma sint_succ:
  fixes c :: "32 word"
  assumes "sint c < 2147483647"
  shows "sint (c + 1) = sint c + 1"
  using assms sint_ge[of c]
  by (simp add: sint_word_ariths signed_take_bit_int_eq_self_iff)

lemma sint_pred:
  fixes c :: "32 word"
  assumes "0 < sint c"
  shows "sint (c - 1) = sint c - 1"
  using assms sint_lt[of c]
  by (simp add: sint_word_ariths signed_take_bit_int_eq_self_iff)

lemma sint_succ_pos:
  fixes c :: "32 word"
  assumes "0 \<le> sint c" "0 < sint (c + 1)"
  shows "sint c < 2147483647"
proof (rule ccontr)
  assume "\<not> sint c < 2147483647"
  with sint_lt[of c] have "sint c = 2147483647" by simp
  then have "word_of_int (sint c) = (word_of_int 2147483647 :: 32 word)" by simp
  then have "c = 2147483647" by simp
  with assms(2) show False by simp
qed

lemma waiting_thread_wakeup_same: "waiting chan (thread_wakeup chan s) = []"
  by (simp add: waiting_def thread_wakeup_def filter_empty_conv)

lemma waiting_thread_wakeup_other:
  "chan' \<noteq> chan \<Longrightarrow> waiting chan' (thread_wakeup chan s) = waiting chan' s"
proof -
  assume ne: "chan' \<noteq> chan"
  have "filter (\<lambda>tc. snd tc = chan') (filter (\<lambda>tc. snd tc \<noteq> chan) q)
        = filter (\<lambda>tc. snd tc = chan') q" for q :: "(ptr \<times> ptr) list"
    using ne by (induction q) auto
  then show ?thesis by (simp add: waiting_def thread_wakeup_def)
qed

lemma asleep_thread_wakeup: "asleep t (thread_wakeup chan s) \<Longrightarrow> asleep t s"
  by (auto simp: asleep_def thread_wakeup_def)

lemma waiting_simps [simp]:
  "waiting chan (splx spl s) = waiting chan s"
  "waiting chan (s\<lparr>curspl := spl\<rparr>) = waiting chan s"
  "waiting chan (s\<lparr>sems := ss\<rparr>) = waiting chan s"
  "waiting chan (s\<lparr>locks := ls\<rparr>) = waiting chan s"
  by (simp_all add: waiting_def splx_def)

lemma asleep_simps [simp]:
  "asleep t (splx spl s) = asleep t s"
  "asleep t (s\<lparr>curspl := spl\<rparr>) = asleep t s"
  "asleep t (s\<lparr>sems := ss\<rparr>) = asleep t s"
  "asleep t (s\<lparr>locks := ls\<rparr>) = asleep t s"
  by (simp_all add: asleep_def splx_def)

lemma thread_wakeup_fields [simp]:
  "sems (thread_wakeup chan s) = sems s"
  "locks (thread_wakeup chan s) = locks s"
  "cvs (thread_wakeup chan s) = cvs s"
  "curspl (thread_wakeup chan s) = curspl s"
  "curthread (thread_wakeup chan s) = curthread s"
  "in_interrupt (thread_wakeup chan s) = in_interrupt s"
  by (simp_all add: thread_wakeup_def)

lemma splx_fields [simp]:
  "sems (splx spl s) = sems s"
  "locks (splx spl s) = locks s"
  "cvs (splx spl s) = cvs s"
  "curspl (splx spl s) = spl"
  "curthread (splx spl s) = curthread s"
  "in_interrupt (splx spl s) = in_interrupt s"
  "sleepers (splx spl s) = sleepers s"
  by (simp_all add: splx_def)

lemma kfree_gone:
  "p \<noteq> NULL \<Longrightarrow> sems (kfree p s) p = None \<and> locks (kfree p s) p = None \<and>
     cvs (kfree p s) p = None"
  by (simp add: kfree_def)

lemma waiting_wake_first_same:
  "map fst (filter (\<lambda>tc. snd tc = chan) (wake_first chan q))
     = tl (map fst (filter (\<lambda>tc. snd tc = chan) q))"
  by (induction q) auto

lemma waiting_wake_first_other:
  "chan' \<noteq> chan \<Longrightarrow> filter (\<lambda>tc. snd tc = chan') (wake_first chan q)
     = filter (\<lambda>tc. snd tc = chan') q"
  by (induction q) auto

lemma wake_first_none:
  "filter (\<lambda>tc. snd tc = chan) q = [] \<Longrightarrow> wake_first chan q = q"
  by (induction q) (auto split: if_splits)

lemma length_wake_first:
  "filter (\<lambda>tc. snd tc = chan) q \<noteq> [] \<Longrightarrow> Suc (length (wake_first chan q)) = length q"
  by (induction q) (auto split: if_splits)


lemma thread_sleep_returns:
  assumes "thread_sleep chan env s = Inr (env', s')"
  shows "\<exists>e. env = e # env' \<and>
           s' = (e (s\<lparr>sleepers := sleepers s @ [(curthread s, chan)]\<rparr>))
                  \<lparr>curspl := curspl s, in_interrupt := in_interrupt s,
                    curthread := curthread s\<rparr> \<and>
           \<not> asleep (curthread s) s'"
  using assms
  by (auto simp: thread_sleep_def Let_def asleep_def split: list.splits if_splits)

lemma thread_sleep_context:
  assumes "thread_sleep chan env s = Inr (env', s')"
  shows "curthread s' = curthread s \<and> curspl s' = curspl s \<and>
         in_interrupt s' = in_interrupt s"
  using thread_sleep_returns [OF assms] by auto

lemma thread_sleep_nil:
  "thread_sleep chan [] s = Inl (s\<lparr>sleepers := sleepers s @ [(curthread s, chan)]\<rparr>)"
  by (simp add: thread_sleep_def)

subsection \<open>Auxiliary facts: the loops of P and lock_acquire\<close>

lemma P_while_Done:
  "P_while env sem s = Done (env', s') \<Longrightarrow>
     (\<exists>sm. sems s' sem = Some sm \<and> count sm \<noteq> 0) \<and>
     curthread s' = curthread s \<and> curspl s' = curspl s \<and>
     in_interrupt s' = in_interrupt s"
proof (induction env sem s rule: P_while.induct)
  case (1 env sem s)
  show ?case
  proof (cases "sems s sem")
    case None
    with "1.prems" show ?thesis by (simp add: P_while.simps)
  next
    case (Some sm)
    show ?thesis
    proof (cases "count sm = 0")
      case False
      with Some "1.prems" show ?thesis by (simp add: P_while.simps)
    next
      case True
      show ?thesis
      proof (cases "thread_sleep sem env s")
        case (Inl b)
        with Some True "1.prems" show ?thesis by (simp add: P_while.simps)
      next
        case (Inr r)
        obtain env1 s1 where r: "r = (env1, s1)" by (cases r)
        from Inr r Some True "1.prems" have "P_while env1 sem s1 = Done (env', s')"
          by (simp add: P_while.simps)
        from "1.IH" [OF Some True Inr [unfolded r] refl this]
          thread_sleep_context [OF Inr [unfolded r]]
        show ?thesis by simp
      qed
    qed
  qed
qed

lemma lock_while_Done:
  "lock_while env lock s = Done (env', s') \<Longrightarrow>
     (\<exists>l. locks s' lock = Some l \<and> flag l = 0) \<and>
     curthread s' = curthread s \<and> curspl s' = curspl s \<and>
     in_interrupt s' = in_interrupt s"
proof (induction env lock s rule: lock_while.induct)
  case (1 env lock s)
  show ?case
  proof (cases "locks s lock")
    case None
    with "1.prems" show ?thesis by (simp add: lock_while.simps)
  next
    case (Some l)
    show ?thesis
    proof (cases "flag l \<noteq> 0")
      case False
      with Some "1.prems" show ?thesis by (simp add: lock_while.simps)
    next
      case True
      show ?thesis
      proof (cases "thread_sleep lock env s")
        case (Inl b)
        with Some True "1.prems" show ?thesis by (simp add: lock_while.simps)
      next
        case (Inr r)
        obtain env1 s1 where r: "r = (env1, s1)" by (cases r)
        from Inr r Some True "1.prems" have "lock_while env1 lock s1 = Done (env', s')"
          by (simp add: lock_while.simps)
        from "1.IH" [OF Some True Inr [unfolded r] refl this]
          thread_sleep_context [OF Inr [unfolded r]]
        show ?thesis by simp
      qed
    qed
  qed
qed

lemma P_while_nil:
  "P_while [] sem s =
     (case sems s sem of
        None \<Rightarrow> Panic Bad_pointer
      | Some sm \<Rightarrow>
          if count sm = 0
          then Blocked (s\<lparr>sleepers := sleepers s @ [(curthread s, sem)]\<rparr>)
          else Done ([], s))"
  by (simp add: P_while.simps thread_sleep_nil split: option.splits)

subsection \<open>Auxiliary facts: semaphore operations\<close>

lemma V_Done_count:
  assumes "V sem s = Done s'" "sems s sem = Some sm" "0 \<le> sint (count sm)"
  shows "sems s' sem = Some (sm\<lparr>count := count sm + 1\<rparr>) \<and>
         sint (count sm + 1) = sint (count sm) + 1"
proof -
  from assms(1,2) have pos: "0 < sint (count sm + 1)"
    by (auto simp: V_def splhigh_def Let_def split: if_splits)
  from sint_succ_pos [OF assms(3) pos] have "sint (count sm + 1) = sint (count sm) + 1"
    by (rule sint_succ)
  moreover from assms(1,2) have "sems s' sem = Some (sm\<lparr>count := count sm + 1\<rparr>)"
    by (auto simp: V_def splhigh_def Let_def split: if_splits)
  ultimately show ?thesis by simp
qed

lemma V_not_Blocked: "V sem s \<noteq> Blocked b"
  by (simp add: V_def splhigh_def Let_def split: option.splits)

lemma P_body_nil_Done:
  assumes "P_body [] spl sem s = Done s'" "sems s sem = Some sm"
  shows "sems s' sem = Some (sm\<lparr>count := count sm - 1\<rparr>) \<and> 0 < sint (count sm)"
  using assms
  by (auto simp: P_body_def P_while_nil split: if_splits)

lemma P_body_nil_Blocked:
  assumes "P_body [] spl sem s = Blocked s'"
  shows "sems s' = sems s"
  using assms
  by (auto simp: P_body_def P_while_nil split: if_splits option.splits)

lemma P_body_Done_nonneg:
  assumes "P_body env spl sem s = Done s'"
  shows "\<exists>sm. sems s' sem = Some sm \<and> 0 \<le> sint (count sm)"
proof -
  from assms obtain env1 s1 where w: "P_while env sem s = Done (env1, s1)"
    by (auto simp: P_body_def split: result.splits)
  with assms obtain sm where sm: "sems s1 sem = Some sm" "0 < sint (count sm)"
    "s' = splx spl (s1\<lparr>sems := (sems s1)(sem \<mapsto> sm\<lparr>count := count sm - 1\<rparr>)\<rparr>)"
    by (auto simp: P_body_def split: option.splits if_splits)
  from sm(2) sint_pred [of "count sm"] have "0 \<le> sint (count sm - 1)" by simp
  with sm(3) show ?thesis by simp
qed

lemma P_Done_nonneg:
  assumes "P env sem s = Done s'"
  shows "\<exists>sm. sems s' sem = Some sm \<and> 0 \<le> sint (count sm)"
  using assms P_body_Done_nonneg
  by (auto simp: P_def splhigh_def split: if_splits)

lemma P_blocks_at_zero:
  assumes "sem \<noteq> NULL" "in_interrupt s = 0" "sems s sem = Some sm" "count sm = 0"
  shows "P [] sem s =
           Blocked (s\<lparr>curspl := SPL_HIGH, sleepers := sleepers s @ [(curthread s, sem)]\<rparr>)"
  using assms by (simp add: P_def splhigh_def P_body_def P_while_nil)

lemma P_retests_after_wake:
  assumes "sem \<noteq> NULL" "in_interrupt s = 0" "sems s sem = Some sm" "count sm = 0"
    "thread_sleep sem env (s\<lparr>curspl := SPL_HIGH\<rparr>) = Inr (env', s2)"
  shows "P env sem s = P_body env' (curspl s) sem s2"
  using assms by (simp add: P_def splhigh_def P_body_def P_while.simps [of env])

lemma P_decrements_once:
  assumes "sem \<noteq> NULL" "in_interrupt s = 0" "sems s sem = Some sm" "0 < sint (count sm)"
  shows "P env sem s = Done (s\<lparr>sems := (sems s)(sem \<mapsto> sm\<lparr>count := count sm - 1\<rparr>)\<rparr>) \<and>
         sint (count sm - 1) = sint (count sm) - 1"
proof -
  from assms(4) have nz: "count sm \<noteq> 0" by auto
  with assms show ?thesis
    by (simp add: P_def splhigh_def P_body_def P_while.simps [of env] splx_def sint_pred)
qed


subsection \<open>Auxiliary facts: schedules of semaphore operations\<close>

lemma sem_step_balance:
  assumes "sem_balance sem c0 (s, nv, np)"
  shows "case sem_step sem (t, op) s of
           Panic f \<Rightarrow> True
         | Blocked s' \<Rightarrow> sem_balance sem c0 (s', nv, np)
         | Done s' \<Rightarrow> (case op of Op_V \<Rightarrow> sem_balance sem c0 (s', nv + 1, np)
                       | _ \<Rightarrow> sem_balance sem c0 (s', nv, np + 1))"
proof -
  from assms obtain sm where sm: "sems s sem = Some sm" "0 \<le> sint (count sm)"
    "sint (count sm) = sint c0 + int nv - int np"
    by (auto simp: sem_balance_def split: option.splits)
  show ?thesis
  proof (cases op)
    case Op_V
    show ?thesis
    proof (cases "V sem (s\<lparr>curthread := t\<rparr>)")
      case (Done s')
      from V_Done_count [OF Done, of sm] sm show ?thesis
        by (simp add: Op_V Done sem_balance_def)
    next
      case (Panic f)
      then show ?thesis by (simp add: Op_V)
    next
      case (Blocked b)
      with V_not_Blocked show ?thesis by blast
    qed
  next
    case Op_P
    show ?thesis
    proof (cases "P [] sem (s\<lparr>curthread := t\<rparr>)")
      case (Done s')
      then have "P_body [] (curspl s) sem (s\<lparr>curthread := t, curspl := SPL_HIGH\<rparr>) = Done s'"
        by (simp add: P_def splhigh_def split: if_splits)
      from P_body_nil_Done [OF this, of sm] sm sint_pred [of "count sm"] show ?thesis
        by (simp add: Op_P Done sem_balance_def)
    next
      case (Panic f)
      then show ?thesis by (simp add: Op_P)
    next
      case (Blocked b)
      then have "P_body [] (curspl s) sem (s\<lparr>curthread := t, curspl := SPL_HIGH\<rparr>) = Blocked b"
        by (simp add: P_def splhigh_def split: if_splits)
      from P_body_nil_Blocked [OF this] sm show ?thesis
        by (simp add: Op_P Blocked sem_balance_def)
    qed
  next
    case (Op_P_woken spl)
    show ?thesis
    proof (cases "P_body [] spl sem (s\<lparr>curthread := t, curspl := SPL_HIGH\<rparr>)")
      case (Done s')
      from P_body_nil_Done [OF this, of sm] sm sint_pred [of "count sm"] show ?thesis
        by (simp add: Op_P_woken Done sem_balance_def)
    next
      case (Panic f)
      then show ?thesis by (simp add: Op_P_woken)
    next
      case (Blocked b)
      from P_body_nil_Blocked [OF this] sm show ?thesis
        by (simp add: Op_P_woken Blocked sem_balance_def)
    qed
  qed
qed

lemma sem_run_balance:
  "sem_balance sem c0 acc \<Longrightarrow> sem_run sem ops acc = Some acc' \<Longrightarrow> sem_balance sem c0 acc'"
proof (induction ops arbitrary: acc)
  case Nil
  then show ?case by simp
next
  case (Cons a ops)
  obtain t op where a: "a = (t, op)" by (cases a)
  obtain s nv np where acc: "acc = (s, nv, np)" by (cases acc)
  from Cons.prems(2) have na: "\<not> asleep t s"
    by (auto simp: a acc split: if_splits)
  from Cons.prems(1) have bal: "sem_balance sem c0 (s, nv, np)" by (simp add: acc)
  show ?case
  proof (cases "sem_step sem (t, op) s")
    case (Panic f)
    with Cons.prems(2) na show ?thesis by (simp add: a acc)
  next
    case (Blocked b)
    with sem_step_balance [OF bal, where t = t and op = op] have "sem_balance sem c0 (b, nv, np)" by simp
    moreover from Blocked Cons.prems(2) na have "sem_run sem ops (b, nv, np) = Some acc'"
      by (simp add: a acc)
    ultimately show ?thesis by (rule Cons.IH)
  next
    case (Done s')
    show ?thesis
    proof (cases "op = Op_V")
      case True
      with Done sem_step_balance [OF bal, where t = t and op = op]
      have "sem_balance sem c0 (s', nv + 1, np)" by simp
      moreover from True Done Cons.prems(2) na
      have "sem_run sem ops (s', nv + 1, np) = Some acc'"
        by (simp add: a acc)
      ultimately show ?thesis by (rule Cons.IH)
    next
      case False
      with Done sem_step_balance [OF bal, where t = t and op = op]
      have "sem_balance sem c0 (s', nv, np + 1)" by (cases op) simp_all
      moreover from False Done Cons.prems(2) na
      have "sem_run sem ops (s', nv, np + 1) = Some acc'"
        by (cases op) (simp_all add: a acc)
      ultimately show ?thesis by (rule Cons.IH)
    qed
  qed
qed

lemma sem_run_append:
  "sem_run sem (pre @ post) acc = Some r \<Longrightarrow>
     \<exists>m. sem_run sem pre acc = Some m \<and> sem_run sem post m = Some r"
proof (induction pre arbitrary: acc)
  case Nil
  then show ?case by simp
next
  case (Cons a pre)
  obtain t op where a: "a = (t, op)" by (cases a)
  obtain s nv np where acc: "acc = (s, nv, np)" by (cases acc)
  from Cons.prems show ?case
    by (auto simp: a acc split: if_splits result.splits sem_op.splits dest: Cons.IH)
qed

lemma sem_create_balance:
  assumes "sem_create name c0 s0 = Done (sem, s1)" "sem \<noteq> NULL"
  shows "sem_balance sem c0 (s1, 0, 0)"
  using assms
  by (auto simp: sem_create_def sem_balance_def Let_def split: if_splits prod.splits)

subsection \<open>Auxiliary facts: lock operations\<close>

lemma locks_inv_upd:
  "locks_inv s \<Longrightarrow> lock_inv l \<Longrightarrow> locks s' = (locks s)(p \<mapsto> l) \<Longrightarrow> locks_inv s'"
  by (simp add: locks_inv_def)

lemma locks_kfree: "locks (kfree p s) = (if p = NULL then locks s else (locks s)(p := None))"
  by (simp add: kfree_def)

lemma locks_inv_kfree: "locks_inv s \<Longrightarrow> locks_inv (kfree p s)"
  by (auto simp: locks_inv_def locks_kfree split: if_splits)

lemma locks_kmalloc: "kmalloc s = (p, s1) \<Longrightarrow> locks s1 = locks s"
  by (auto simp: kmalloc_def split: list.splits)

lemma locks_kstrdup: "kstrdup n s = (p, s1) \<Longrightarrow> locks s1 = locks s"
  by (auto simp: kstrdup_def kmalloc_def Let_def split: list.splits prod.splits if_splits)

lemma lock_create_inv:
  assumes "lock_create name s = Done (lock, s')" "locks_inv s"
  shows "locks_inv s' \<and>
         (lock \<noteq> NULL \<longrightarrow>
            (\<exists>nm. locks s' lock = Some \<lparr>lock_name = nm, flag = 0, currentThread = NULL\<rparr>))"
proof -
  obtain a s1 where a: "kmalloc s = (a, s1)" by (cases "kmalloc s")
  obtain nm s2 where nm: "kstrdup name s1 = (nm, s2)" by (cases "kstrdup name s1")
  have i1: "locks_inv s1"
    using assms(2) locks_kmalloc [OF a] by (simp add: locks_inv_def)
  have i2: "locks_inv s2"
    using i1 locks_kstrdup [OF nm] by (simp add: locks_inv_def)
  show ?thesis
  proof (cases "a = NULL")
    case True
    with assms(1) a i1 show ?thesis by (simp add: lock_create_def)
  next
    case False
    show ?thesis
    proof (cases "nm = NULL")
      case True
      with False assms(1) a nm have "lock = NULL" "s' = kfree a s2"
        by (simp_all add: lock_create_def)
      with i2 show ?thesis by (simp add: locks_inv_kfree)
    next
      case nz: False
      with False assms(1) a nm have l: "lock = a"
        and s': "s' = s2\<lparr>locks := (locks s2)(a \<mapsto>
                    \<lparr>lock_name = nm, flag = 0, currentThread = NULL\<rparr>)\<rparr>"
        by (auto simp: lock_create_def)
      have "lock_inv \<lparr>lock_name = nm, flag = 0, currentThread = NULL\<rparr>"
        by (simp add: lock_inv_def)
      from locks_inv_upd [OF i2 this, of s' a] s' l show ?thesis by simp
    qed
  qed
qed


lemma lock_while_inv:
  "lock_while env lock s = Done (env', s') \<Longrightarrow> locks_inv s \<Longrightarrow> env_keeps_locks_inv env \<Longrightarrow>
     locks_inv s'"
proof (induction env lock s rule: lock_while.induct)
  case (1 env lock s)
  show ?case
  proof (cases "locks s lock")
    case None
    with "1.prems" show ?thesis by (simp add: lock_while.simps)
  next
    case (Some l)
    show ?thesis
    proof (cases "flag l \<noteq> 0")
      case False
      with Some "1.prems" show ?thesis by (simp add: lock_while.simps)
    next
      case True
      show ?thesis
      proof (cases "thread_sleep lock env s")
        case (Inl b)
        with Some True "1.prems" show ?thesis by (simp add: lock_while.simps)
      next
        case (Inr r)
        obtain env1 s1 where r: "r = (env1, s1)" by (cases r)
        from Inr r Some True "1.prems" have w: "lock_while env1 lock s1 = Done (env', s')"
          by (simp add: lock_while.simps)
        from thread_sleep_returns [OF Inr [unfolded r]] obtain e where e: "env = e # env1"
          "s1 = (e (s\<lparr>sleepers := sleepers s @ [(curthread s, lock)]\<rparr>))
                  \<lparr>curspl := curspl s, in_interrupt := in_interrupt s,
                    curthread := curthread s\<rparr>"
          by blast
        have "locks_inv (s\<lparr>sleepers := sleepers s @ [(curthread s, lock)]\<rparr>)"
          using "1.prems"(2) by (simp add: locks_inv_def)
        with "1.prems"(3) e(1)
        have "locks_inv (e (s\<lparr>sleepers := sleepers s @ [(curthread s, lock)]\<rparr>))"
          by (simp add: env_keeps_locks_inv_def)
        then have i1: "locks_inv s1" by (simp add: e(2) locks_inv_def)
        from "1.prems"(3) e(1) have k1: "env_keeps_locks_inv env1"
          by (simp add: env_keeps_locks_inv_def)
        from "1.IH" [OF Some True Inr [unfolded r] refl w i1 k1] show ?thesis .
      qed
    qed
  qed
qed

lemma lock_acquire_inv:
  assumes "lock_acquire env lock s = Done s'" "locks_inv s" "env_keeps_locks_inv env"
    "curthread s \<noteq> NULL"
  shows "locks_inv s' \<and>
         (\<exists>nm. locks s' lock = Some \<lparr>lock_name = nm, flag = 1, currentThread = curthread s\<rparr>)"
proof -
  let ?s1 = "s\<lparr>curspl := SPL_HIGH\<rparr>"
  from assms(1) have b: "lock_acquire_body env (curspl s) lock ?s1 = Done s'"
    by (simp add: lock_acquire_def splhigh_def split: if_splits)
  then obtain env1 s2 where w: "lock_while env lock ?s1 = Done (env1, s2)"
    by (auto simp: lock_acquire_body_def split: result.splits)
  have "locks_inv ?s1" using assms(2) by (simp add: locks_inv_def)
  from lock_while_inv [OF w this assms(3)] have i2: "locks_inv s2" .
  from lock_while_Done [OF w] obtain l where l: "locks s2 lock = Some l"
    and c: "curthread s2 = curthread s" by auto
  from b w l have s': "s' = splx (curspl s)
      (s2\<lparr>locks := (locks s2)(lock \<mapsto> l\<lparr>flag := 1, currentThread := curthread s2\<rparr>)\<rparr>)"
    by (simp add: lock_acquire_body_def)
  have "lock_inv (l\<lparr>flag := 1, currentThread := curthread s2\<rparr>)"
    using assms(4) c by (simp add: lock_inv_def)
  from locks_inv_upd [OF i2 this, of s' lock] s' c show ?thesis by (cases l) simp
qed

lemma lock_release_inv:
  assumes "lock_release lock s = Done s'" "locks_inv s"
  shows "locks_inv s' \<and>
         (\<forall>l. locks s lock = Some l \<longrightarrow> currentThread l = curthread s \<longrightarrow>
            locks s' lock = Some (l\<lparr>flag := 0, currentThread := NULL\<rparr>))"
proof -
  have "lock_inv (l\<lparr>flag := 0, currentThread := NULL\<rparr>)" for l
    by (simp add: lock_inv_def)
  with assms show ?thesis
    by (auto simp: lock_release_def splhigh_def lock_do_i_hold_def Let_def locks_inv_def
        split: if_splits option.splits)
qed

lemma lock_destroy_inv:
  assumes "lock_destroy lock s = Done s'" "locks_inv s"
  shows "locks_inv s'"
  using assms
  by (auto simp: lock_destroy_def locks_inv_kfree split: if_splits option.splits)

lemma lock_do_i_hold_owner:
  assumes "lock \<noteq> NULL" "locks s lock = Some l"
  shows "lock_do_i_hold lock s = Done (if currentThread l = curthread s then 1 else 0) \<and>
         lock_do_i_hold lock (s\<lparr>locks := (locks s)(lock \<mapsto> l\<lparr>flag := f\<rparr>)\<rparr>)
           = lock_do_i_hold lock s"
  using assms by (simp add: lock_do_i_hold_def)


lemma woken_acquire_completes:
  assumes "lock \<noteq> NULL" "locks s lock = Some l" "flag l \<noteq> 0" "currentThread l = t"
    "in_interrupt s = 0" "\<not> asleep (curthread s) s"
  shows "lock_acquire (other_thread_release t lock # env) lock s =
           Done (s\<lparr>locks := (locks s)(lock \<mapsto> l\<lparr>flag := 1, currentThread := curthread s\<rparr>),
                   sleepers := filter (\<lambda>tc. snd tc \<noteq> lock) (sleepers s)\<rparr>)"
proof -
  let ?s1 = "s\<lparr>curspl := SPL_HIGH\<rparr>"
  let ?s2 = "?s1\<lparr>sleepers := sleepers s @ [(curthread s, lock)]\<rparr>"
  let ?s3 = "?s1\<lparr>locks := (locks s)(lock \<mapsto> l\<lparr>flag := 0, currentThread := NULL\<rparr>),
                 sleepers := filter (\<lambda>tc. snd tc \<noteq> lock) (sleepers s), curthread := t\<rparr>"
  have v: "other_thread_release t lock ?s2 = ?s3"
    using assms(1,2,4,5)
    by (simp add: other_thread_release_def lock_release_def lock_do_i_hold_def splhigh_def
        splx_def thread_wakeup_def)
  have na: "\<not> asleep (curthread s) ?s3"
    using assms(6) by (auto simp: asleep_def)
  have sl: "thread_sleep lock (other_thread_release t lock # env) ?s1
        = Inr (env, ?s3\<lparr>curspl := SPL_HIGH, in_interrupt := in_interrupt s,
                         curthread := curthread s\<rparr>)"
    using v na by (simp add: thread_sleep_def Let_def)
  show ?thesis
    using assms(1-5) sl
    by (simp add: lock_acquire_def splhigh_def lock_acquire_body_def
        lock_while.simps [of "other_thread_release t lock # env"]
        lock_while.simps [of env] splx_def)
qed

lemma other_thread_release_keeps_locks_inv:
  "env_keeps_locks_inv [other_thread_release t lock]"
proof -
  have "locks_inv (other_thread_release t lock s)" if i: "locks_inv s" for s
  proof (cases "lock_release lock (s\<lparr>curthread := t\<rparr>)")
    case (Done s')
    from i have "locks_inv (s\<lparr>curthread := t\<rparr>)" by (simp add: locks_inv_def)
    from lock_release_inv [OF Done this] Done show ?thesis
      by (simp add: other_thread_release_def)
  next
    case (Panic f)
    with i show ?thesis by (simp add: other_thread_release_def)
  next
    case (Blocked b)
    with i show ?thesis by (simp add: other_thread_release_def)
  qed
  then show ?thesis by (simp add: env_keeps_locks_inv_def)
qed

subsection \<open>Auxiliary facts: waiting on a condition variable\<close>




subsection \<open>Auxiliary facts: traces\<close>

lemma preempt_no_irq [simp]: "preempt no_irq s = s"
  by (simp add: preempt_def no_irq_def)

lemma preempt_high [simp]: "curspl s = SPL_HIGH \<Longrightarrow> preempt irq s = s"
  by (simp add: preempt_def)




lemma V_trace_irq:
  "V_trace irq sem s = V_trace no_irq sem (preempt irq s)"
  by (simp add: V_trace_def V_stmts_def splhigh_def Let_def
      sem_count_incr_def sem_count_positive_def stmt_do_def split: option.splits)





lemma waiting_curthread [simp]: "waiting chan (s\<lparr>curthread := w\<rparr>) = waiting chan s"
  by (simp add: waiting_def)








section \<open>The claims\<close>

subsection \<open>C1: semaphore increment\<close>

text \<open>
  C1, as stated, fails: \<^verbatim>\<open>V\<close> calls \<^verbatim>\<open>thread_wakeup\<close>, which wakes every thread
  queued on the semaphore. With threads 2 and 3 asleep on the semaphore at address 10,
  one \<^verbatim>\<open>V\<close> leaves nobody asleep: two threads were woken, not exactly one.
\<close>

theorem V_wakes_two_counterexample:
  "waiting 10 sem_two_waiters = [2, 3] \<and>
   V 10 sem_two_waiters =
     Done (sem_two_waiters\<lparr>sems := [10 \<mapsto> \<lparr>sem_name = 11, count = 1\<rparr>], sleepers := []\<rparr>)"
  by (simp add: V_def sem_two_waiters_def boot_state_def splhigh_def splx_def
      thread_wakeup_def waiting_def)

text \<open>
  C1, amended: \<^verbatim>\<open>V\<close> never leaves its caller blocked, and on a semaphore whose count
  is non-negative and below \<^verbatim>\<open>INT_MAX\<close> it returns with the count incremented by one,
  every thread that was queued on the semaphore woken, the queues of all other wait
  channels as they were, no thread put to sleep, and the interrupt level restored.
\<close>

theorem V_increments_and_wakes_all:
  "V sem s \<noteq> Blocked b \<and>
   (sem \<noteq> NULL \<longrightarrow> sems s sem = Some sm \<longrightarrow> 0 \<le> sint (count sm) \<longrightarrow>
    sint (count sm) < 2147483647 \<longrightarrow>
      (\<exists>s'. V sem s = Done s' \<and>
            sems s' = (sems s)(sem \<mapsto> sm\<lparr>count := count sm + 1\<rparr>) \<and>
            sint (count sm + 1) = sint (count sm) + 1 \<and>
            waiting sem s' = [] \<and>
            (\<forall>chan. chan \<noteq> sem \<longrightarrow> waiting chan s' = waiting chan s) \<and>
            (\<forall>t. asleep t s' \<longrightarrow> asleep t s) \<and>
            curspl s' = curspl s \<and> curthread s' = curthread s))"
proof -
  have nb: "V sem s \<noteq> Blocked b"
    by (rule V_not_Blocked)
  show ?thesis
    using nb
    by (auto simp: V_def splhigh_def Let_def sint_succ waiting_thread_wakeup_same
        waiting_thread_wakeup_other dest: asleep_thread_wakeup)
qed

theorem V_increments_and_wakes_all_witness:
  "V 10 sem_two_waiters \<noteq> Blocked boot_state \<and>
   (\<exists>s'. V 10 sem_two_waiters = Done s' \<and> waiting 10 s' = [] \<and>
      sems s' = [10 \<mapsto> \<lparr>sem_name = 11, count = 1\<rparr>])"
  using V_increments_and_wakes_all
    [of 10 sem_two_waiters boot_state "\<lparr>sem_name = 11, count = 0\<rparr>"]
  by (auto simp: sem_two_waiters_def boot_state_def)

subsection \<open>C2: calls from interrupt context\<close>

text \<open>
  C2, as stated, fails: \<^verbatim>\<open>cv_signal\<close> asserts \<^verbatim>\<open>in_interrupt == 0\<close>. Called with
  \<^verbatim>\<open>in_interrupt\<close> set to 1 on the condition variable at 30 and the lock at 22, the
  assertion fires.
\<close>

theorem cv_signal_in_interrupt_counterexample:
  "in_interrupt (busy_state\<lparr>in_interrupt := 1\<rparr>) = 1 \<and>
   cv_signal 30 22 (busy_state\<lparr>in_interrupt := 1\<rparr>)
     = Panic (Assert_failed ''in_interrupt == 0'')"
  by (simp add: cv_signal_def splhigh_def)

text \<open>
  C2, amended: with \<^verbatim>\<open>in_interrupt\<close> nonzero, \<^verbatim>\<open>V\<close> on a semaphore whose count is
  non-negative and below \<^verbatim>\<open>INT_MAX\<close> completes normally: it increments the count, wakes
  the waiters and restores the interrupt level. \<^verbatim>\<open>lock_release\<close>, \<^verbatim>\<open>cv_signal\<close> and
  \<^verbatim>\<open>cv_broadcast\<close> assert \<^verbatim>\<open>in_interrupt == 0\<close>: called with \<^verbatim>\<open>in_interrupt\<close> nonzero
  on non-null arguments, each halts on that assertion.
\<close>

theorem interrupt_context_calls:
  assumes "in_interrupt s \<noteq> 0"
  shows "(sem \<noteq> NULL \<longrightarrow> sems s sem = Some sm \<longrightarrow> 0 \<le> sint (count sm) \<longrightarrow>
            sint (count sm) < 2147483647 \<longrightarrow>
            V sem s = Done (splx (curspl s) (thread_wakeup sem
              (s\<lparr>curspl := SPL_HIGH,
                 sems := (sems s)(sem \<mapsto> sm\<lparr>count := count sm + 1\<rparr>)\<rparr>)))) \<and>
         (lock \<noteq> NULL \<longrightarrow>
            lock_release lock s = Panic (Assert_failed ''in_interrupt == 0'')) \<and>
         (cv \<noteq> NULL \<longrightarrow> lock \<noteq> NULL \<longrightarrow>
            cv_signal cv lock s = Panic (Assert_failed ''in_interrupt == 0'') \<and>
            cv_broadcast cv lock s = Panic (Assert_failed ''in_interrupt == 0''))"
  using assms
  by (simp add: V_def lock_release_def cv_signal_def cv_broadcast_def splhigh_def
      Let_def sint_succ)

theorem interrupt_context_calls_witness:
  "in_interrupt (busy_state\<lparr>in_interrupt := 1\<rparr>) = 1 \<and>
   V 10 (busy_state\<lparr>in_interrupt := 1\<rparr>) =
     Done (busy_state\<lparr>in_interrupt := 1,
             sems := (sems busy_state)(10 \<mapsto> \<lparr>sem_name = 11, count = 1\<rparr>)\<rparr>) \<and>
   lock_release 22 (busy_state\<lparr>in_interrupt := 1\<rparr>)
     = Panic (Assert_failed ''in_interrupt == 0'') \<and>
   cv_signal 30 22 (busy_state\<lparr>in_interrupt := 1\<rparr>)
     = Panic (Assert_failed ''in_interrupt == 0'') \<and>
   cv_broadcast 30 22 (busy_state\<lparr>in_interrupt := 1\<rparr>)
     = Panic (Assert_failed ''in_interrupt == 0'')"
  using interrupt_context_calls
    [of "busy_state\<lparr>in_interrupt := 1\<rparr>" 10 "\<lparr>sem_name = 11, count = 0\<rparr>" 22 30]
  by (simp add: busy_state_def boot_state_def splx_def thread_wakeup_def)

subsection \<open>C3: destroying a primitive\<close>

text \<open>
  C3, as stated, fails: \<^verbatim>\<open>lock_destroy\<close> asserts only \<^verbatim>\<open>lock != NULL\<close>. The lock at
  20 is held (its flag is 1, its owner thread 2) and thread 3 sleeps on it, and
  \<^verbatim>\<open>lock_destroy\<close> returns, with the lock freed.
\<close>

theorem lock_destroy_held_counterexample:
  "locks busy_state 20 = Some \<lparr>lock_name = 21, flag = 1, currentThread = 2\<rparr> \<and>
   waiting 20 busy_state = [3] \<and>
   lock_destroy 20 busy_state = Done (kfree 20 (kfree 21 busy_state)) \<and>
   locks (kfree 20 (kfree 21 busy_state)) 20 = None"
  by (simp add: lock_destroy_def busy_state_def boot_state_def waiting_def kfree_def)

text \<open>
  C3, amended: destroying a semaphore with zero waiters succeeds, and destroying a
  semaphore with a waiter present is rejected by the fatal assertion
  \<^verbatim>\<open>thread_hassleepers(sem)==0\<close>. \<^verbatim>\<open>lock_destroy\<close> and \<^verbatim>\<open>cv_destroy\<close> check
  neither waiters nor the held flag: on every lock and every condition variable they free
  the object and return.
\<close>

theorem destroy_checks:
  "(sem \<noteq> NULL \<longrightarrow> sems s sem = Some sm \<longrightarrow> waiting sem s = [] \<longrightarrow>
      sem_destroy sem s = Done (kfree sem (kfree (sem_name sm) s)) \<and>
      sems (kfree sem (kfree (sem_name sm) s)) sem = None) \<and>
   (sem2 \<noteq> NULL \<longrightarrow> waiting sem2 s \<noteq> [] \<longrightarrow>
      sem_destroy sem2 s = Panic (Assert_failed ''thread_hassleepers(sem)==0'')) \<and>
   (lock \<noteq> NULL \<longrightarrow> locks s lock = Some l \<longrightarrow>
      lock_destroy lock s = Done (kfree lock (kfree (lock_name l) s)) \<and>
      locks (kfree lock (kfree (lock_name l) s)) lock = None) \<and>
   (cv \<noteq> NULL \<longrightarrow> cvs s cv = Some c \<longrightarrow>
      cv_destroy cv s = Done (kfree cv (kfree (cv_name c) s)) \<and>
      cvs (kfree cv (kfree (cv_name c) s)) cv = None)"
  by (simp add: sem_destroy_def lock_destroy_def cv_destroy_def splhigh_def
      thread_hassleepers_def kfree_gone splx_def)

theorem destroy_checks_witness:
  "waiting 10 busy_state = [] \<and>
   sem_destroy 10 busy_state = Done (kfree 10 (kfree 11 busy_state)) \<and>
   waiting 14 busy_state = [5] \<and>
   sem_destroy 14 busy_state = Panic (Assert_failed ''thread_hassleepers(sem)==0'') \<and>
   waiting 20 busy_state = [3] \<and>
   lock_destroy 20 busy_state = Done (kfree 20 (kfree 21 busy_state)) \<and>
   waiting 30 busy_state = [4, 6] \<and>
   cv_destroy 30 busy_state = Done (kfree 30 (kfree 31 busy_state))"
  using destroy_checks [of 10 busy_state "\<lparr>sem_name = 11, count = 0\<rparr>" 14 20
      "\<lparr>lock_name = 21, flag = 1, currentThread = 2\<rparr>" 30 "\<lparr>cv_name = 31\<rparr>"]
  by (simp add: busy_state_def boot_state_def waiting_def)

subsection \<open>C4: release by a thread that does not own the lock\<close>

text \<open>
  C4 says that \<^verbatim>\<open>lock_release\<close> by a thread that is not the recorded owner is a no-op.
  The code is not: thread 1, running at interrupt level 0 outside any interrupt handler,
  releases the lock at 20, which thread 2 owns. The lock and the wait queue stay as they
  were, but the call returns with the interrupt level at \<open>SPL_HIGH\<close>, because the
  \<^verbatim>\<open>return\<close> of that branch comes before \<^verbatim>\<open>splx(spl)\<close>: the state returned is not the
  state passed in. On the lock at 22, which thread 1 owns, the same function restores the
  level 0 before it returns.
\<close>

theorem lock_release_not_owner_level_raised:
  "curthread busy_state = 1 \<and> in_interrupt busy_state = 0 \<and> curspl busy_state = 0 \<and>
   locks busy_state 20 = Some \<lparr>lock_name = 21, flag = 1, currentThread = 2\<rparr> \<and>
   lock_release 20 busy_state = Done (busy_state\<lparr>curspl := SPL_HIGH\<rparr>) \<and>
   busy_state\<lparr>curspl := SPL_HIGH\<rparr> \<noteq> busy_state \<and>
   lock_release 22 busy_state
     = Done (busy_state\<lparr>locks := (locks busy_state)(22 \<mapsto>
                \<lparr>lock_name = 23, flag = 0, currentThread = NULL\<rparr>),
              sleepers := [(3, 20), (4, 30), (5, 14), (6, 30)]\<rparr>)"
proof -
  have "curspl (busy_state\<lparr>curspl := SPL_HIGH\<rparr>) \<noteq> curspl busy_state"
    by (simp add: busy_state_def boot_state_def SPL_HIGH_def)
  then have ne: "busy_state\<lparr>curspl := SPL_HIGH\<rparr> \<noteq> busy_state"
    by metis
  show ?thesis
    using ne
    by (simp add: lock_release_def lock_do_i_hold_def splhigh_def splx_def thread_wakeup_def
        busy_state_def boot_state_def)
qed

subsection \<open>C5: the count of a semaphore\<close>

text \<open>
  C5: for a semaphore created with initial count \<open>c0\<close> (which \<^verbatim>\<open>sem_create\<close> asserts to
  be non-negative) and every schedule of \<^verbatim>\<open>V\<close> and \<^verbatim>\<open>P\<close> operations that runs without
  a panic, after every prefix of the schedule the count is non-negative and equals
  \<open>c0\<close> plus the completed increments minus the completed decrements, so the completed
  decrements never exceed \<open>c0\<close> plus the completed increments. Whatever the other
  threads do while it sleeps, a \<^verbatim>\<open>P\<close> that returns leaves the count non-negative.
  \<^verbatim>\<open>P\<close> on a count of 0 puts the caller to sleep on the semaphore, with the count
  untouched, and re-tests the count when the sleep ends; \<^verbatim>\<open>P\<close> on a positive count
  decrements it exactly once and returns without sleeping.
\<close>

theorem semaphore_count_never_negative:
  "(sem_create name c0 s0 = Done (sem, s1) \<longrightarrow> sem \<noteq> NULL \<longrightarrow>
      sem_run sem (pre @ post) (s1, 0, 0) = Some r \<longrightarrow>
      (\<exists>s' nv np sm. sem_run sem pre (s1, 0, 0) = Some (s', nv, np) \<and>
         sems s' sem = Some sm \<and> 0 \<le> sint (count sm) \<and>
         sint (count sm) = sint c0 + int nv - int np \<and> int np \<le> sint c0 + int nv)) \<and>
   (P env sem s = Done s' \<longrightarrow> (\<exists>sm. sems s' sem = Some sm \<and> 0 \<le> sint (count sm))) \<and>
   (sem \<noteq> NULL \<longrightarrow> in_interrupt sa = 0 \<longrightarrow> sems sa sem = Some sma \<longrightarrow> count sma = 0 \<longrightarrow>
      P [] sem sa =
        Blocked (sa\<lparr>curspl := SPL_HIGH, sleepers := sleepers sa @ [(curthread sa, sem)]\<rparr>) \<and>
      (\<forall>env' s2. thread_sleep sem env (sa\<lparr>curspl := SPL_HIGH\<rparr>) = Inr (env', s2) \<longrightarrow>
         P env sem sa = P_body env' (curspl sa) sem s2)) \<and>
   (sem \<noteq> NULL \<longrightarrow> in_interrupt sb = 0 \<longrightarrow> sems sb sem = Some smb \<longrightarrow>
      0 < sint (count smb) \<longrightarrow>
      P env sem sb = Done (sb\<lparr>sems := (sems sb)(sem \<mapsto> smb\<lparr>count := count smb - 1\<rparr>)\<rparr>) \<and>
      sint (count smb - 1) = sint (count smb) - 1)"
proof -
  have run: "\<exists>s' nv np sm. sem_run sem pre (s1, 0, 0) = Some (s', nv, np) \<and>
         sems s' sem = Some sm \<and> 0 \<le> sint (count sm) \<and>
         sint (count sm) = sint c0 + int nv - int np \<and> int np \<le> sint c0 + int nv"
    if c: "sem_create name c0 s0 = Done (sem, s1)" and n: "sem \<noteq> NULL"
      and r: "sem_run sem (pre @ post) (s1, 0, 0) = Some r"
  proof -
    from sem_run_append [OF r] obtain m where m: "sem_run sem pre (s1, 0, 0) = Some m"
      by blast
    obtain s' nv np where mm: "m = (s', nv, np)" by (cases m)
    from sem_run_balance [OF sem_create_balance [OF c n] m]
    have "sem_balance sem c0 (s', nv, np)" by (simp add: mm)
    then obtain sm where "sems s' sem = Some sm" "0 \<le> sint (count sm)"
      "sint (count sm) = sint c0 + int nv - int np"
      by (auto simp: sem_balance_def split: option.splits)
    with m mm show ?thesis by auto
  qed
  show ?thesis
    using run P_Done_nonneg [of env sem s s'] P_blocks_at_zero [of sem sa sma]
      P_retests_after_wake [of sem sa sma env] P_decrements_once [of sem sb smb env]
    by blast
qed

theorem semaphore_count_never_negative_witness:
  "sem_create ''sem'' 1 boot_state = Done (10, sem_one) \<and>
   sem_run 10 sem_schedule (sem_one, 0, 0)
     = Some (sem_one\<lparr>sems := [10 \<mapsto> \<lparr>sem_name = 11, count = 0\<rparr>], curthread := 2\<rparr>, 1, 2) \<and>
   P [other_thread_V 4 10] 10 sem_one
     = Done (sem_one\<lparr>sems := [10 \<mapsto> \<lparr>sem_name = 11, count = 0\<rparr>]\<rparr>) \<and>
   P [] 10 sem_two_waiters
     = Blocked (sem_two_waiters\<lparr>curspl := SPL_HIGH, sleepers := [(2, 10), (3, 10), (1, 10)]\<rparr>) \<and>
   thread_sleep 10 [other_thread_V 4 10] (sem_two_waiters\<lparr>curspl := SPL_HIGH\<rparr>)
     = Inr ([], sem_two_waiters\<lparr>curspl := SPL_HIGH, sleepers := [],
                  sems := [10 \<mapsto> \<lparr>sem_name = 11, count = 1\<rparr>]\<rparr>) \<and>
   P [other_thread_V 4 10] 10 sem_two_waiters = Done (sem_two_waiters\<lparr>sleepers := []\<rparr>)"
proof -
  have sl: "thread_sleep 10 [other_thread_V 4 10] (sem_two_waiters\<lparr>curspl := SPL_HIGH\<rparr>)
     = Inr ([], sem_two_waiters\<lparr>curspl := SPL_HIGH, sleepers := [],
                  sems := [10 \<mapsto> \<lparr>sem_name = 11, count = 1\<rparr>]\<rparr>)"
    by (simp add: thread_sleep_def other_thread_V_def V_def splhigh_def splx_def
        thread_wakeup_def asleep_def sem_two_waiters_def boot_state_def Let_def)
  have body: "P_body [] 0 10 (sem_two_waiters\<lparr>curspl := SPL_HIGH, sleepers := [],
                  sems := [10 \<mapsto> \<lparr>sem_name = 11, count = 1\<rparr>]\<rparr>)
     = Done (sem_two_waiters\<lparr>sleepers := []\<rparr>)"
    by (simp add: P_body_def P_while_nil splx_def sem_two_waiters_def boot_state_def)
  from semaphore_count_never_negative
    [where name = "''sem''" and ?c0.0 = 1 and ?s0.0 = boot_state and sem = 10 and ?s1.0 = sem_one
       and pre = sem_schedule and post = "[]"
       and r = "(sem_one\<lparr>sems := [10 \<mapsto> \<lparr>sem_name = 11, count = 0\<rparr>], curthread := 2\<rparr>, 1, 2)"
       and env = "[other_thread_V 4 10]" and s = sem_one
       and s' = "sem_one\<lparr>sems := [10 \<mapsto> \<lparr>sem_name = 11, count = 0\<rparr>]\<rparr>"
       and sa = sem_two_waiters and sma = "\<lparr>sem_name = 11, count = 0\<rparr>"
       and sb = sem_one and smb = "\<lparr>sem_name = 11, count = 1\<rparr>"]
    sl body
  show ?thesis
    by (simp add: sem_create_def kmalloc_def kstrdup_def sem_schedule_def sem_one_def
        sem_two_waiters_def boot_state_def asleep_def P_def V_def P_body_def P_while_nil
        splhigh_def splx_def thread_wakeup_def SPL_HIGH_def)
qed

subsection \<open>C6: update before wake\<close>



subsection \<open>C7: waiting on a condition variable\<close>



subsection \<open>C8: signal and broadcast\<close>

text \<open>
  C8: for every condition variable and lock, called outside an interrupt handler:
  \<^verbatim>\<open>cv_signal\<close> takes the first thread asleep on the condition variable off the wait
  queue, exactly one thread if there is any, and returns the state unchanged when no thread
  waits on it; \<^verbatim>\<open>cv_broadcast\<close> takes every thread asleep on the condition variable off
  the wait queue. Both leave the threads asleep on other channels asleep, and neither
  changes any field of any lock.
\<close>

theorem cv_signal_broadcast:
  assumes "cv \<noteq> NULL" "lock \<noteq> NULL" "in_interrupt s = 0"
  shows "cv_signal cv lock s = Done (thread_single_wakeup cv s) \<and>
         waiting cv (thread_single_wakeup cv s) = tl (waiting cv s) \<and>
         (waiting cv s \<noteq> [] \<longrightarrow>
            Suc (length (sleepers (thread_single_wakeup cv s))) = length (sleepers s)) \<and>
         (waiting cv s = [] \<longrightarrow> thread_single_wakeup cv s = s) \<and>
         (\<forall>chan. chan \<noteq> cv \<longrightarrow> waiting chan (thread_single_wakeup cv s) = waiting chan s) \<and>
         locks (thread_single_wakeup cv s) = locks s \<and>
         cv_broadcast cv lock s = Done (thread_wakeup cv s) \<and>
         waiting cv (thread_wakeup cv s) = [] \<and>
         (\<forall>chan. chan \<noteq> cv \<longrightarrow> waiting chan (thread_wakeup cv s) = waiting chan s) \<and>
         locks (thread_wakeup cv s) = locks s"
proof -
  have a: "cv_signal cv lock s = Done (thread_single_wakeup cv s)"
    using assms by (simp add: cv_signal_def splhigh_def splx_def thread_single_wakeup_def)
  have b: "cv_broadcast cv lock s = Done (thread_wakeup cv s)"
    using assms by (simp add: cv_broadcast_def splhigh_def splx_def thread_wakeup_def)
  have c: "waiting cv (thread_single_wakeup cv s) = tl (waiting cv s)"
    by (simp add: waiting_def thread_single_wakeup_def waiting_wake_first_same)
  have d: "waiting cv s \<noteq> [] \<longrightarrow>
            Suc (length (sleepers (thread_single_wakeup cv s))) = length (sleepers s)"
    by (simp add: waiting_def thread_single_wakeup_def length_wake_first)
  have e: "waiting cv s = [] \<longrightarrow> thread_single_wakeup cv s = s"
    by (simp add: waiting_def thread_single_wakeup_def wake_first_none)
  have f: "\<forall>chan. chan \<noteq> cv \<longrightarrow> waiting chan (thread_single_wakeup cv s) = waiting chan s"
    by (simp add: waiting_def thread_single_wakeup_def waiting_wake_first_other)
  have g: "locks (thread_single_wakeup cv s) = locks s"
    by (simp add: thread_single_wakeup_def)
  show ?thesis
    using a b c d e f g
    by (simp add: waiting_thread_wakeup_same waiting_thread_wakeup_other)
qed

theorem cv_signal_broadcast_witness:
  "cv_signal 30 22 busy_state
     = Done (busy_state\<lparr>sleepers := [(3, 20), (5, 14), (6, 30), (7, 22)]\<rparr>) \<and>
   cv_broadcast 30 22 busy_state
     = Done (busy_state\<lparr>sleepers := [(3, 20), (5, 14), (7, 22)]\<rparr>) \<and>
   cv_signal 30 22 boot_state = Done boot_state"
  using cv_signal_broadcast [of 30 22 busy_state] cv_signal_broadcast [of 30 22 boot_state]
  by (simp add: busy_state_def boot_state_def thread_single_wakeup_def thread_wakeup_def)

subsection \<open>C9: the interrupt level after \<^verbatim>\<open>lock_release\<close>\<close>

text \<open>
  C9: \<^verbatim>\<open>lock_release\<close> called by a thread that is not the recorded owner returns
  from the branch \<^verbatim>\<open>lock_do_i_hold(lock) == 0\<close> before \<^verbatim>\<open>splx(spl)\<close>: the caller gets
  back the state it passed in with the interrupt level left at \<open>SPL_HIGH\<close>. Called by
  the owner, it returns with the interrupt level the caller had.
\<close>

theorem lock_release_interrupt_level:
  assumes "in_interrupt s = 0"
  shows "(lock \<noteq> NULL \<longrightarrow> locks s lock = Some l \<longrightarrow> currentThread l \<noteq> curthread s \<longrightarrow>
            lock_release lock s = Done (s\<lparr>curspl := SPL_HIGH\<rparr>)) \<and>
         (lock2 \<noteq> NULL \<longrightarrow> locks s lock2 = Some l2 \<longrightarrow> currentThread l2 = curthread s \<longrightarrow>
            (\<exists>s'. lock_release lock2 s = Done s' \<and> curspl s' = curspl s))"
  using assms by (simp add: lock_release_def splhigh_def lock_do_i_hold_def Let_def)

theorem lock_release_interrupt_level_witness:
  "curspl busy_state = 0 \<and>
   lock_release 20 busy_state = Done (busy_state\<lparr>curspl := SPL_HIGH\<rparr>) \<and>
   curspl busy_state < curspl (busy_state\<lparr>curspl := SPL_HIGH\<rparr>) \<and>
   (\<exists>s'. lock_release 22 busy_state = Done s' \<and> curspl s' = 0)"
  using lock_release_interrupt_level [of busy_state 20
      "\<lparr>lock_name = 21, flag = 1, currentThread = 2\<rparr>" 22
      "\<lparr>lock_name = 23, flag = 1, currentThread = 1\<rparr>"]
  by (auto simp: busy_state_def boot_state_def SPL_HIGH_def)

subsection \<open>C10: held flag and owner\<close>

text \<open>
  C10: every lock operation, run by a thread (\<^verbatim>\<open>curthread\<close> is not \<^verbatim>\<open>NULL\<close>),
  preserves the invariant that the held flag of every lock is nonzero exactly when its
  owner pointer is non-null. \<^verbatim>\<open>lock_create\<close> makes a lock with flag 0 and owner
  \<^verbatim>\<open>NULL\<close>; a \<^verbatim>\<open>lock_acquire\<close> that returns has set the flag to 1 and the owner to
  the caller; the owner's \<^verbatim>\<open>lock_release\<close> sets the flag to 0 and the owner to
  \<^verbatim>\<open>NULL\<close>; \<^verbatim>\<open>lock_destroy\<close> removes the lock. \<^verbatim>\<open>lock_do_i_hold\<close> returns 1 exactly
  when the recorded owner is the calling thread, and its result does not depend on the
  held flag.
\<close>

theorem lock_flag_owner_invariant:
  assumes "locks_inv s" "curthread s \<noteq> NULL"
  shows "(lock_create name s = Done (lc, s1) \<longrightarrow>
            locks_inv s1 \<and>
            (lc \<noteq> NULL \<longrightarrow>
               (\<exists>nm. locks s1 lc = Some \<lparr>lock_name = nm, flag = 0, currentThread = NULL\<rparr>))) \<and>
         (lock_acquire env la s = Done s2 \<longrightarrow> env_keeps_locks_inv env \<longrightarrow>
            locks_inv s2 \<and>
            (\<exists>nm. locks s2 la
                    = Some \<lparr>lock_name = nm, flag = 1, currentThread = curthread s\<rparr>)) \<and>
         (lock_release lr s = Done s3 \<longrightarrow>
            locks_inv s3 \<and>
            (locks s lr = Some l \<longrightarrow> currentThread l = curthread s \<longrightarrow>
               locks s3 lr = Some (l\<lparr>flag := 0, currentThread := NULL\<rparr>))) \<and>
         (lock_destroy ld s = Done s4 \<longrightarrow> locks_inv s4) \<and>
         (lq \<noteq> NULL \<longrightarrow> locks s lq = Some q \<longrightarrow>
            lock_do_i_hold lq s = Done (if currentThread q = curthread s then 1 else 0) \<and>
            (\<forall>f. lock_do_i_hold lq (s\<lparr>locks := (locks s)(lq \<mapsto> q\<lparr>flag := f\<rparr>)\<rparr>)
                   = lock_do_i_hold lq s))"
  using lock_create_inv [OF _ assms(1), of name lc s1]
    lock_acquire_inv [OF _ assms(1) _ assms(2), of env la s2]
    lock_release_inv [OF _ assms(1), of lr s3]
    lock_destroy_inv [OF _ assms(1), of ld s4]
    lock_do_i_hold_owner [of lq s q]
  by blast

theorem lock_flag_owner_invariant_witness:
  "locks_inv busy_state \<and> curthread busy_state = 1 \<and>
   lock_create ''lock4'' busy_state
     = Done (12, busy_state\<lparr>free_cells := [],
               strs := (strs busy_state)(13 \<mapsto> ''lock4''),
               locks := (locks busy_state)(12 \<mapsto>
                  \<lparr>lock_name = 13, flag = 0, currentThread = NULL\<rparr>)\<rparr>) \<and>
   env_keeps_locks_inv [other_thread_release 2 20] \<and>
   lock_acquire [other_thread_release 2 20] 20 busy_state
     = Done (busy_state\<lparr>locks := (locks busy_state)(20 \<mapsto>
                \<lparr>lock_name = 21, flag = 1, currentThread = 1\<rparr>),
              sleepers := [(4, 30), (5, 14), (6, 30), (7, 22)]\<rparr>) \<and>
   lock_release 22 busy_state
     = Done (busy_state\<lparr>locks := (locks busy_state)(22 \<mapsto>
                \<lparr>lock_name = 23, flag = 0, currentThread = NULL\<rparr>),
              sleepers := [(3, 20), (4, 30), (5, 14), (6, 30)]\<rparr>) \<and>
   lock_destroy 24 busy_state = Done (kfree 24 (kfree 25 busy_state)) \<and>
   lock_do_i_hold 22 busy_state = Done 1 \<and>
   lock_do_i_hold 20 busy_state = Done 0"
proof -
  have inv: "locks_inv busy_state"
    by (simp add: locks_inv_def lock_inv_def busy_state_def boot_state_def)
  have env: "env_keeps_locks_inv [other_thread_release 2 20]"
    by (rule other_thread_release_keeps_locks_inv)
  have cur: "curthread busy_state \<noteq> NULL"
    by (simp add: busy_state_def boot_state_def)
  have a: "lock_acquire [other_thread_release 2 20] 20 busy_state
     = Done (busy_state\<lparr>locks := (locks busy_state)(20 \<mapsto>
                \<lparr>lock_name = 21, flag = 1, currentThread = 1\<rparr>),
              sleepers := [(4, 30), (5, 14), (6, 30), (7, 22)]\<rparr>)"
    using woken_acquire_completes
      [of 20 busy_state "\<lparr>lock_name = 21, flag = 1, currentThread = 2\<rparr>" 2 "[]"]
    by (simp add: busy_state_def boot_state_def asleep_def)
  have q: "lock_do_i_hold 20 busy_state = Done 0"
    by (simp add: lock_do_i_hold_def busy_state_def boot_state_def)
  from lock_flag_owner_invariant [OF inv cur,
      where name = "''lock4''" and lc = 12 and env = "[other_thread_release 2 20]" and la = 20
        and lr = 22 and ld = 24
        and lq = 22 and q = "\<lparr>lock_name = 23, flag = 1, currentThread = 1\<rparr>"
        and l = "\<lparr>lock_name = 23, flag = 1, currentThread = 1\<rparr>"]
    inv env a q
  show ?thesis
    by (simp add: busy_state_def boot_state_def lock_create_def kmalloc_def kstrdup_def
        lock_release_def lock_do_i_hold_def lock_destroy_def splhigh_def splx_def
        thread_wakeup_def Let_def)
qed

end
